theory Spec2Isabelle
  imports Main "HOL-Library.List_Lexorder" "HOL-Library.Char_ord" "HOL-Library.Multiset"
begin

section \<open>Conditions: types and core structure (conditions.go)\<close>

text \<open>
  \<^verbatim>\<open>type Type string\<close> and \<^verbatim>\<open>type ConditionStatus string\<close> are Go
  strings, compared byte by byte: the order on \<open>string\<close> is the lexicographic order of
  the character codes. \<^verbatim>\<open>time.Time\<close> is an instant on a linear time line, modelled as
  an integer number of clock ticks.
\<close>

type_synonym Type = string
type_synonym ConditionStatus = string
type_synonym Time = int

definition Ready :: Type where
  "Ready = ''Ready''"

definition True_status :: ConditionStatus where
  "True_status = ''True''"

definition False_status :: ConditionStatus where
  "False_status = ''False''"

definition Unknown_status :: ConditionStatus where
  "Unknown_status = ''Unknown''"

record Condition =
  Type :: Type
  Status :: ConditionStatus
  Reason :: string
  Message :: string
  LastTransitionTime :: Time

subsection \<open>Internal helpers\<close>

definition lexicographicLess :: "Condition \<Rightarrow> Condition \<Rightarrow> bool" where
  "lexicographicLess a b =
     (if Type a = Ready \<and> Type b \<noteq> Ready then True
      else if Type b = Ready \<and> Type a \<noteq> Ready then False
      else Type a < Type b)"

text \<open>
  \<^verbatim>\<open>sort.Slice(conds, less)\<close> belongs to the Go standard library: it rearranges the
  slice into an order in which no element is \<open>less\<close> than an earlier one, and it is
  not stable: it promises nothing about the relative order of elements that compare
  equal (here: entries of the same \<open>Type\<close>). \<open>sort_Slice\<close> is one such sort, insertion
  sort driven by the same \<open>less\<close>. On a slice without duplicate \<open>Type\<close>s the sorted
  order is unique (lemma \<open>sorted_perm_unique\<close> below), so there the result is the one
  of the library, whatever algorithm it runs. On a slice with a repeated \<open>Type\<close> the
  library may leave the entries of that \<open>Type\<close> in another order than \<open>sort_Slice\<close>
  does; nothing below relies on that order: the lemmas about \<open>sortConditions\<close> use only
  that its result is a sorted permutation of its argument (\<open>mset_sortConditions\<close>,
  \<open>sorted_sortConditions\<close>), and a statement about which entry a lookup finds after a
  sort is made only for a \<open>Type\<close> that has at most one entry.
\<close>

fun insert_by :: "('a \<Rightarrow> 'a \<Rightarrow> bool) \<Rightarrow> 'a \<Rightarrow> 'a list \<Rightarrow> 'a list" where
  "insert_by lt x [] = [x]"
| "insert_by lt x (y # ys) =
     (if lt y x then y # insert_by lt x ys else x # y # ys)"

fun sort_Slice :: "('a \<Rightarrow> 'a \<Rightarrow> bool) \<Rightarrow> 'a list \<Rightarrow> 'a list" where
  "sort_Slice lt [] = []"
| "sort_Slice lt (x # xs) = insert_by lt x (sort_Slice lt xs)"

definition sortConditions :: "Condition list \<Rightarrow> Condition list" where
  "sortConditions conds = sort_Slice lexicographicLess conds"

text \<open>
  \<open>get\<close> returns a pointer into the slice, or nil: here the index of the first entry of
  the requested type, or \<open>None\<close>.
\<close>

fun get :: "Condition list \<Rightarrow> Type \<Rightarrow> nat option" where
  "get [] t = None"
| "get (c # cs) t = (if Type c = t then Some 0 else map_option Suc (get cs t))"

text \<open>
  \<open>set\<close> creates or updates a condition, then sorts. The reading of the clock
  (\<^verbatim>\<open>time.Now().UTC()\<close>) is the parameter \<open>now\<close>.
\<close>

definition set_cond ::
  "Time \<Rightarrow> Condition list \<Rightarrow> Type \<Rightarrow> ConditionStatus \<Rightarrow> string \<Rightarrow> string \<Rightarrow> Condition list" where
  "set_cond now conds t s reason msg =
     sortConditions
       (case get conds t of
          Some i \<Rightarrow>
            (let cond = conds ! i;
                 cond = (if Reason cond \<noteq> reason
                         then cond\<lparr>LastTransitionTime := now\<rparr> else cond);
                 cond = cond\<lparr>Status := s, Reason := reason, Message := msg\<rparr>
             in conds[i := cond])
        | None \<Rightarrow>
            conds @ [\<lparr>Type = t, Status = s, Reason = reason, Message = msg,
                      LastTransitionTime = now\<rparr>])"

subsection \<open>The accessor\<close>

text \<open>
  \<open>ConditionsAccessor\<close> is an interface; the object behind it is the one of the
  package's tests and of the interface's documentation, a struct holding the slice.
\<close>

record stub =
  conds :: "Condition list"

definition GetConditions :: "stub \<Rightarrow> Condition list" where
  "GetConditions s = conds s"

definition SetConditions :: "stub \<Rightarrow> Condition list \<Rightarrow> stub" where
  "SetConditions s c = s\<lparr>conds := c\<rparr>"

subsection \<open>Public helper functions\<close>

definition MarkTrue :: "Time \<Rightarrow> stub \<Rightarrow> Type \<Rightarrow> stub" where
  "MarkTrue now obj t =
     (let conds = GetConditions obj;
          conds = set_cond now conds t True_status [] []
      in SetConditions obj conds)"

definition MarkFalse :: "Time \<Rightarrow> stub \<Rightarrow> Type \<Rightarrow> string \<Rightarrow> string \<Rightarrow> stub" where
  "MarkFalse now obj t reason msg =
     (let conds = GetConditions obj;
          conds = set_cond now conds t False_status reason msg
      in SetConditions obj conds)"

definition MarkUnknown :: "Time \<Rightarrow> stub \<Rightarrow> Type \<Rightarrow> string \<Rightarrow> string \<Rightarrow> stub" where
  "MarkUnknown now obj t reason msg =
     (let conds = GetConditions obj;
          conds = set_cond now conds t Unknown_status reason msg
      in SetConditions obj conds)"

definition IsTrue :: "stub \<Rightarrow> Type \<Rightarrow> bool" where
  "IsTrue obj t =
     (let conds = GetConditions obj
      in case get conds t of
           None \<Rightarrow> False
         | Some i \<Rightarrow> Status (conds ! i) = True_status)"

subsection \<open>SyncReady\<close>

text \<open>
  The scan loop of \<open>SyncReady\<close>: it skips \<open>Ready\<close> and stops at the first condition
  whose status is \<open>False\<close>, returning \<open>(foundFalse, falseReason, falseMessage)\<close>.
\<close>

fun scanFalse :: "Condition list \<Rightarrow> bool \<times> string \<times> string" where
  "scanFalse [] = (False, [], [])"
| "scanFalse (c # cs) =
     (if Type c = Ready then scanFalse cs
      else if Status c = False_status then (True, Reason c, Message c)
      else scanFalse cs)"

definition SyncReady :: "Time \<Rightarrow> stub \<Rightarrow> stub" where
  "SyncReady now obj =
     (let conds = GetConditions obj;
          (foundFalse, falseReason, falseMessage) = scanFalse conds;
          conds = (if foundFalse
                   then set_cond now conds Ready False_status falseReason falseMessage
                   else set_cond now conds Ready True_status [] [])
      in SetConditions obj conds)"

subsection \<open>Sequences of helper calls\<close>

text \<open>
  A caller's history is a list of helper calls, each with the clock reading the call
  takes in \<open>set\<close>.
\<close>

datatype call =
    Call_MarkTrue Type
  | Call_MarkFalse Type string string
  | Call_MarkUnknown Type string string
  | Call_SyncReady

fun do_call :: "stub \<Rightarrow> Time \<times> call \<Rightarrow> stub" where
  "do_call obj (now, Call_MarkTrue t) = MarkTrue now obj t"
| "do_call obj (now, Call_MarkFalse t reason msg) = MarkFalse now obj t reason msg"
| "do_call obj (now, Call_MarkUnknown t reason msg) = MarkUnknown now obj t reason msg"
| "do_call obj (now, Call_SyncReady) = SyncReady now obj"

definition run_calls :: "stub \<Rightarrow> (Time \<times> call) list \<Rightarrow> stub" where
  "run_calls obj cs = foldl do_call obj cs"

text \<open>
  The arguments a \<open>Mark*\<close> call hands to \<open>set\<close>: type, status, reason, message.
\<close>

fun mark_args :: "call \<Rightarrow> (Type \<times> ConditionStatus \<times> string \<times> string) option" where
  "mark_args (Call_MarkTrue t) = Some (t, True_status, [], [])"
| "mark_args (Call_MarkFalse t reason msg) = Some (t, False_status, reason, msg)"
| "mark_args (Call_MarkUnknown t reason msg) = Some (t, Unknown_status, reason, msg)"
| "mark_args Call_SyncReady = None"

text \<open>The condition \<open>get\<close> points to.\<close>

definition cond_at :: "Condition list \<Rightarrow> Type \<Rightarrow> Condition option" where
  "cond_at cs t = (case get cs t of None \<Rightarrow> None | Some i \<Rightarrow> Some (cs ! i))"

section \<open>The helpers on slices that share backing arrays\<close>

text \<open>
  A Go slice points into a backing array, and two slices may share one. To follow which
  array each helper reads and writes, the arrays live in a store: \<open>arrays m ! a\<close> is the
  content of the array at address \<open>a\<close>, and the allocator places a new array at the end
  of the store. A slice is nil or the address of its array. The accessor is the \<open>stub\<close>
  again: its field \<open>stub_conds\<close> holds a slice. \<open>calls\<close> logs every call made through
  the interface, a \<open>SetConditions\<close> with the slice it received and the elements that
  slice had at that moment.
\<close>

type_synonym addr = nat
type_synonym slice = "addr option"

datatype event = Ev_GetConditions | Ev_SetConditions slice "Condition list"

record machine =
  arrays :: "Condition list list"
  stub_conds :: slice
  calls :: "event list"

definition elems :: "machine \<Rightarrow> slice \<Rightarrow> Condition list" where
  "elems m s =
     (case s of
        None \<Rightarrow> []
      | Some a \<Rightarrow> (if a < length (arrays m) then arrays m ! a else []))"

definition alloc :: "Condition list \<Rightarrow> machine \<Rightarrow> slice \<times> machine" where
  "alloc xs m = (Some (length (arrays m)), m\<lparr>arrays := arrays m @ [xs]\<rparr>)"

definition store :: "slice \<Rightarrow> Condition list \<Rightarrow> machine \<Rightarrow> machine" where
  "store s xs m =
     (case s of
        None \<Rightarrow> m
      | Some a \<Rightarrow> m\<lparr>arrays := (arrays m)[a := xs]\<rparr>)"

definition m_GetConditions :: "machine \<Rightarrow> slice \<times> machine" where
  "m_GetConditions m = (stub_conds m, m\<lparr>calls := calls m @ [Ev_GetConditions]\<rparr>)"

definition m_SetConditions :: "slice \<Rightarrow> machine \<Rightarrow> machine" where
  "m_SetConditions c m =
     m\<lparr>stub_conds := c, calls := calls m @ [Ev_SetConditions c (elems m c)]\<rparr>"

text \<open>
  \<^verbatim>\<open>append([]Condition(nil), src...)\<close>: appending nothing to nil gives nil; otherwise
  the elements are copied into a newly allocated array.
\<close>

definition m_copy :: "slice \<Rightarrow> machine \<Rightarrow> slice \<times> machine" where
  "m_copy src m = (if elems m src = [] then (None, m) else alloc (elems m src) m)"

text \<open>
  \<open>set\<close> on the slice variable \<open>c\<close>: an existing condition is overwritten in the array
  of \<open>c\<close>; a new one is appended, into an array allocated for the longer slice (where
  Go finds spare capacity it extends the array of \<open>c\<close> instead, the one \<open>m_copy\<close> has
  just allocated); \<open>sortConditions\<close> then sorts the array of \<open>c\<close> in place.
\<close>

definition m_sortConditions :: "slice \<Rightarrow> machine \<Rightarrow> machine" where
  "m_sortConditions c m = store c (sortConditions (elems m c)) m"

definition m_set ::
  "Time \<Rightarrow> slice \<Rightarrow> Type \<Rightarrow> ConditionStatus \<Rightarrow> string \<Rightarrow> string \<Rightarrow> machine \<Rightarrow> slice \<times> machine" where
  "m_set now c t s reason msg m =
     (let (c, m) =
        (case get (elems m c) t of
           Some i \<Rightarrow>
             (let cond = elems m c ! i;
                  cond = (if Reason cond \<noteq> reason
                          then cond\<lparr>LastTransitionTime := now\<rparr> else cond);
                  cond = cond\<lparr>Status := s, Reason := reason, Message := msg\<rparr>
              in (c, store c ((elems m c)[i := cond]) m))
         | None \<Rightarrow>
             alloc (elems m c @ [\<lparr>Type = t, Status = s, Reason = reason, Message = msg,
                                   LastTransitionTime = now\<rparr>]) m)
      in (c, m_sortConditions c m))"

definition m_MarkTrue :: "Time \<Rightarrow> Type \<Rightarrow> machine \<Rightarrow> machine" where
  "m_MarkTrue now t m =
     (let (src, m) = m_GetConditions m;
          (c, m) = m_copy src m;
          (c, m) = m_set now c t True_status [] [] m
      in m_SetConditions c m)"

definition m_MarkFalse :: "Time \<Rightarrow> Type \<Rightarrow> string \<Rightarrow> string \<Rightarrow> machine \<Rightarrow> machine" where
  "m_MarkFalse now t reason msg m =
     (let (src, m) = m_GetConditions m;
          (c, m) = m_copy src m;
          (c, m) = m_set now c t False_status reason msg m
      in m_SetConditions c m)"

definition m_MarkUnknown :: "Time \<Rightarrow> Type \<Rightarrow> string \<Rightarrow> string \<Rightarrow> machine \<Rightarrow> machine" where
  "m_MarkUnknown now t reason msg m =
     (let (src, m) = m_GetConditions m;
          (c, m) = m_copy src m;
          (c, m) = m_set now c t Unknown_status reason msg m
      in m_SetConditions c m)"

definition m_IsTrue :: "Type \<Rightarrow> machine \<Rightarrow> bool \<times> machine" where
  "m_IsTrue t m =
     (let (c, m) = m_GetConditions m
      in ((case get (elems m c) t of
             None \<Rightarrow> False
           | Some i \<Rightarrow> Status (elems m c ! i) = True_status), m))"

definition m_SyncReady :: "Time \<Rightarrow> machine \<Rightarrow> machine" where
  "m_SyncReady now m =
     (let (src, m) = m_GetConditions m;
          (c, m) = m_copy src m;
          (foundFalse, falseReason, falseMessage) = scanFalse (elems m c);
          (c, m) = (if foundFalse
                    then m_set now c Ready False_status falseReason falseMessage m
                    else m_set now c Ready True_status [] [] m)
      in m_SetConditions c m)"

fun m_do_call :: "machine \<Rightarrow> Time \<times> call \<Rightarrow> machine" where
  "m_do_call m (now, Call_MarkTrue t) = m_MarkTrue now t m"
| "m_do_call m (now, Call_MarkFalse t reason msg) = m_MarkFalse now t reason msg m"
| "m_do_call m (now, Call_MarkUnknown t reason msg) = m_MarkUnknown now t reason msg m"
| "m_do_call m (now, Call_SyncReady) = m_SyncReady now m"

text \<open>The stub of the first model that a machine state stands for.\<close>

definition stub_of :: "machine \<Rightarrow> stub" where
  "stub_of m = \<lparr>conds = elems m (stub_conds m)\<rparr>"

section \<open>The comparator and the sort\<close>

lemma lex_less_iff:
  "lexicographicLess a b \<longleftrightarrow>
     (Type a = Ready \<and> Type b \<noteq> Ready) \<or>
     ((Type a = Ready \<longleftrightarrow> Type b = Ready) \<and> Type a < Type b)"
  unfolding lexicographicLess_def by (cases "Type a = Ready"; cases "Type b = Ready"; simp)

lemma lex_less_irrefl: "\<not> lexicographicLess a a"
  by (simp add: lex_less_iff)

lemma lex_less_same_Type: "Type a = Type b \<Longrightarrow> \<not> lexicographicLess a b"
  by (simp add: lex_less_iff)

lemma lex_less_trans:
  "lexicographicLess a b \<Longrightarrow> lexicographicLess b c \<Longrightarrow> lexicographicLess a c"
  unfolding lex_less_iff using order.strict_trans [of "Type a" "Type b" "Type c"] by blast

lemma lex_less_asym: "lexicographicLess a b \<Longrightarrow> \<not> lexicographicLess b a"
  unfolding lex_less_iff using order.asym [of "Type a" "Type b"] by blast

lemma lex_less_total: "Type a \<noteq> Type b \<Longrightarrow> lexicographicLess a b \<or> lexicographicLess b a"
  unfolding lex_less_iff using linorder_less_linear [of "Type a" "Type b"] by blast

lemma lex_less_cong:
  "Type a = Type a' \<Longrightarrow> Type b = Type b' \<Longrightarrow>
   lexicographicLess a b = lexicographicLess a' b'"
  by (simp add: lexicographicLess_def)

lemma lex_not_less_trans:
  "\<not> lexicographicLess b a \<Longrightarrow> \<not> lexicographicLess c b \<Longrightarrow> \<not> lexicographicLess c a"
proof -
  assume ba: "\<not> lexicographicLess b a" and cb: "\<not> lexicographicLess c b"
  show "\<not> lexicographicLess c a"
  proof
    assume ca: "lexicographicLess c a"
    have "lexicographicLess a b \<or> Type a = Type b"
      using ba lex_less_total by blast
    then have "lexicographicLess c b"
    proof
      assume "lexicographicLess a b"
      with ca show ?thesis by (rule lex_less_trans)
    next
      assume "Type a = Type b"
      with ca show ?thesis using lex_less_cong [of c c a b] by simp
    qed
    with cb show False by simp
  qed
qed

lemma set_insert_by: "set (insert_by lt x ys) = insert x (set ys)"
  by (induction ys) auto

lemma mset_insert_by: "mset (insert_by lt x ys) = add_mset x (mset ys)"
  by (induction ys) auto

lemma mset_sort_Slice: "mset (sort_Slice lt xs) = mset xs"
  by (induction xs) (auto simp: mset_insert_by)

lemma mset_sortConditions: "mset (sortConditions cs) = mset cs"
  by (simp add: sortConditions_def mset_sort_Slice)

lemma set_sortConditions: "set (sortConditions cs) = set cs"
  using mset_sortConditions [of cs] by (metis set_mset_mset)

lemma sorted_insert_by:
  "sorted_wrt (\<lambda>a b. \<not> lexicographicLess b a) ys \<Longrightarrow>
   sorted_wrt (\<lambda>a b. \<not> lexicographicLess b a) (insert_by lexicographicLess x ys)"
proof (induction ys)
  case Nil
  then show ?case by simp
next
  case (Cons y ys)
  show ?case
  proof (cases "lexicographicLess y x")
    case True
    then have "\<not> lexicographicLess x y" by (rule lex_less_asym)
    with Cons True show ?thesis by (auto simp: set_insert_by)
  next
    case False
    have "\<not> lexicographicLess z x" if "z \<in> set ys" for z
    proof -
      from Cons.prems that have "\<not> lexicographicLess z y" by simp
      with False show ?thesis by (rule lex_not_less_trans)
    qed
    with Cons.prems False show ?thesis by simp
  qed
qed

lemma sorted_sortConditions:
  "sorted_wrt (\<lambda>a b. \<not> lexicographicLess b a) (sortConditions cs)"
  unfolding sortConditions_def by (induction cs) (auto intro: sorted_insert_by)

lemma distinct_Type_sortConditions:
  "distinct (map Type (sortConditions cs)) = distinct (map Type cs)"
proof -
  have "mset (map Type (sortConditions cs)) = mset (map Type cs)"
    by (simp add: mset_sortConditions)
  then show ?thesis by (rule mset_eq_imp_distinct_iff)
qed

lemma sorted_distinct_strict:
  "sorted_wrt (\<lambda>a b. \<not> lexicographicLess b a) xs \<Longrightarrow> distinct (map Type xs) \<Longrightarrow>
   sorted_wrt lexicographicLess xs"
proof (induction xs)
  case Nil
  then show ?case by simp
next
  case (Cons x xs)
  have "lexicographicLess x y" if "y \<in> set xs" for y
  proof -
    from Cons.prems that have "\<not> lexicographicLess y x" and "Type x \<noteq> Type y" by auto
    then show ?thesis using lex_less_total [of x y] by blast
  qed
  with Cons show ?case by simp
qed

lemma strict_sorted_sortConditions:
  "distinct (map Type cs) \<Longrightarrow> sorted_wrt lexicographicLess (sortConditions cs)"
  by (simp add: sorted_distinct_strict sorted_sortConditions distinct_Type_sortConditions)

lemma strict_sorted_imp_distinct:
  "sorted_wrt lexicographicLess xs \<Longrightarrow> distinct (map Type xs)"
  by (induction xs) (auto dest: lex_less_same_Type)

lemma strict_sorted_unique:
  "sorted_wrt lexicographicLess xs \<Longrightarrow> sorted_wrt lexicographicLess ys \<Longrightarrow>
   set xs = set ys \<Longrightarrow> xs = ys"
proof (induction xs arbitrary: ys)
  case Nil
  then show ?case by simp
next
  case (Cons x xs)
  from Cons.prems obtain y ys' where ys: "ys = y # ys'" by (cases ys) auto
  have xy: "x = y"
  proof (rule ccontr)
    assume ne: "x \<noteq> y"
    with Cons.prems ys have "x \<in> set ys'" and "y \<in> set xs" by auto
    with Cons.prems ys have "lexicographicLess y x" and "lexicographicLess x y" by auto
    then show False using lex_less_asym by blast
  qed
  have "x \<notin> set xs" and "y \<notin> set ys'"
    using Cons.prems ys lex_less_irrefl by auto
  with Cons.prems ys xy have "set xs = set ys'" by auto
  with Cons ys xy show ?case by simp
qed

lemma sorted_perm_unique:
  assumes "distinct (map Type cs)" and "mset ys = mset cs"
    and "sorted_wrt (\<lambda>a b. \<not> lexicographicLess b a) ys"
  shows "ys = sortConditions cs"
proof -
  have "mset (map Type ys) = mset (map Type cs)" using assms(2) by simp
  then have "distinct (map Type ys) = distinct (map Type cs)" by (rule mset_eq_imp_distinct_iff)
  with assms(1) have "distinct (map Type ys)" by simp
  then have "sorted_wrt lexicographicLess ys" using assms(3) by (simp add: sorted_distinct_strict)
  moreover have "sorted_wrt lexicographicLess (sortConditions cs)"
    using assms(1) by (rule strict_sorted_sortConditions)
  moreover have "set ys = set (sortConditions cs)"
    using assms(2) by (metis set_sortConditions set_mset_mset)
  ultimately show ?thesis by (rule strict_sorted_unique)
qed

lemma strict_sorted_imp_sorted:
  "sorted_wrt lexicographicLess xs \<Longrightarrow> sorted_wrt (\<lambda>a b. \<not> lexicographicLess b a) xs"
  by (erule sorted_wrt_mono_rel [rotated]) (simp add: lex_less_asym)

lemma sortConditions_strict_sorted_id:
  assumes "sorted_wrt lexicographicLess cs"
  shows "sortConditions cs = cs"
proof -
  from assms have "distinct (map Type cs)" by (rule strict_sorted_imp_distinct)
  moreover have "mset cs = mset cs" by simp
  moreover from assms have "sorted_wrt (\<lambda>a b. \<not> lexicographicLess b a) cs"
    by (rule strict_sorted_imp_sorted)
  ultimately have "cs = sortConditions cs" by (rule sorted_perm_unique)
  then show ?thesis by simp
qed

subsection \<open>Lookup\<close>

lemma cond_at_Nil [simp]: "cond_at [] t = None"
  by (simp add: cond_at_def)

lemma cond_at_Cons [simp]:
  "cond_at (c # cs) t = (if Type c = t then Some c else cond_at cs t)"
  by (simp add: cond_at_def split: option.splits)

lemma cond_at_find: "cond_at cs t = find (\<lambda>c. Type c = t) cs"
  by (induction cs) auto

lemma get_Some_iff:
  "get cs t = Some i \<longleftrightarrow> i < length cs \<and> Type (cs ! i) = t \<and> (\<forall>j<i. Type (cs ! j) \<noteq> t)"
proof (induction cs arbitrary: i)
  case Nil
  then show ?case by simp
next
  case (Cons c cs)
  show ?case
  proof (cases "Type c = t")
    case True
    then show ?thesis by (cases i) auto
  next
    case False
    show ?thesis
    proof (cases i)
      case 0
      with False show ?thesis by auto
    next
      case (Suc k)
      have "(\<forall>j<Suc k. Type ((c # cs) ! j) \<noteq> t) = (\<forall>j<k. Type (cs ! j) \<noteq> t)"
        using False by (auto simp: less_Suc_eq_0_disj)
      with False Suc Cons.IH [of k] show ?thesis by auto
    qed
  qed
qed

lemma get_None_iff: "get cs t = None \<longleftrightarrow> (\<forall>c\<in>set cs. Type c \<noteq> t)"
  by (induction cs) auto

lemma cond_at_None_iff: "cond_at cs t = None \<longleftrightarrow> (\<forall>c\<in>set cs. Type c \<noteq> t)"
  by (induction cs) auto

lemma cond_at_SomeD: "cond_at cs t = Some c \<Longrightarrow> c \<in> set cs \<and> Type c = t"
  by (induction cs) (auto split: if_splits)

lemma cond_at_distinct:
  "distinct (map Type cs) \<Longrightarrow> c \<in> set cs \<Longrightarrow> cond_at cs (Type c) = Some c"
  by (induction cs) auto

lemma count_list_Type_0: "count_list (map Type cs) t = 0 \<longleftrightarrow> (\<forall>c\<in>set cs. Type c \<noteq> t)"
  by (induction cs) auto

lemma distinct_count_list_le1: "distinct xs \<Longrightarrow> count_list xs x \<le> 1"
  by (induction xs) (auto simp: count_list_0_iff)

lemma cond_at_unique:
  "count_list (map Type cs) t \<le> 1 \<Longrightarrow> c \<in> set cs \<Longrightarrow> Type c = t \<Longrightarrow> cond_at cs t = Some c"
proof (induction cs)
  case Nil
  then show ?case by simp
next
  case (Cons x xs)
  show ?case
  proof (cases "Type x = t")
    case True
    with Cons.prems(1) have "count_list (map Type xs) t = 0" by simp
    then have "\<forall>c\<in>set xs. Type c \<noteq> t" by (simp only: count_list_Type_0)
    with Cons.prems(2,3) have "c = x" by auto
    with True show ?thesis by simp
  next
    case False
    with Cons show ?thesis by auto
  qed
qed

section \<open>Creating and updating a condition\<close>

lemma get_cond_at: "get cs t = Some i \<Longrightarrow> cond_at cs t = Some (cs ! i)"
  by (simp add: cond_at_def)

lemma get_None_cond_at: "get cs t = None \<Longrightarrow> cond_at cs t = None"
  by (simp add: cond_at_def)

lemma get_SomeD: "get cs t = Some i \<Longrightarrow> i < length cs \<and> Type (cs ! i) = t"
  by (simp add: get_Some_iff)

lemma Condition_update_literal:
  "c\<lparr>Status := s, Reason := r, Message := m\<rparr> =
   \<lparr>Type = Type c, Status = s, Reason = r, Message = m,
     LastTransitionTime = LastTransitionTime c\<rparr>"
  by (cases c) simp

lemma set_cond_map_Type:
  "mset (map Type (set_cond now cs t s r m)) =
     (if t \<in> Type ` set cs then mset (map Type cs) else add_mset t (mset (map Type cs)))"
proof (cases "get cs t")
  case None
  then have "t \<notin> Type ` set cs" by (auto simp: get_None_iff)
  with None show ?thesis
    by (simp add: set_cond_def mset_sortConditions)
next
  case (Some i)
  then have i: "i < length cs" and ty: "Type (cs ! i) = t" by (simp_all add: get_SomeD)
  then have "t \<in> Type ` set cs" by (metis imageI nth_mem)
  moreover have upd: "map Type (cs[i := c]) = map Type cs" if "Type c = t" for c
    using that i ty by (simp add: map_update list_update_same_conv)
  moreover have ms: "mset (map Type (sortConditions xs)) = mset (map Type xs)" for xs
    by (simp add: mset_sortConditions)
  ultimately show ?thesis
    using Some ty
    by (simp add: set_cond_def Let_def ms upd del: mset_map)
qed

lemma set_cond_Types: "Type ` set (set_cond now cs t s r m) = insert t (Type ` set cs)"
proof -
  have "set_mset (mset (map Type (set_cond now cs t s r m))) =
        set_mset (if t \<in> Type ` set cs then mset (map Type cs)
                  else add_mset t (mset (map Type cs)))"
    by (simp only: set_cond_map_Type)
  then show ?thesis by (auto split: if_splits)
qed

lemma set_cond_count_Type:
  assumes "count_list (map Type cs) t \<le> 1"
  shows "count_list (map Type (set_cond now cs t s r m)) t \<le> 1"
proof (cases "t \<in> Type ` set cs")
  case True
  then have "mset (map Type (set_cond now cs t s r m)) = mset (map Type cs)"
    by (simp only: set_cond_map_Type if_True)
  then have "count (mset (map Type (set_cond now cs t s r m))) t = count (mset (map Type cs)) t"
    by (rule arg_cong)
  then have "count_list (map Type (set_cond now cs t s r m)) t = count_list (map Type cs) t"
    by (simp only: count_mset)
  with assms show ?thesis by simp
next
  case False
  then have "mset (map Type (set_cond now cs t s r m)) = add_mset t (mset (map Type cs))"
    by (simp only: set_cond_map_Type if_False)
  then have "count (mset (map Type (set_cond now cs t s r m))) t =
             count (add_mset t (mset (map Type cs))) t"
    by (rule arg_cong)
  then have "count_list (map Type (set_cond now cs t s r m)) t = Suc (count_list (map Type cs) t)"
    by (simp only: count_add_mset count_mset if_True refl)
  moreover from False have "count_list (map Type cs) t = 0"
    by (simp add: count_list_0_iff)
  ultimately show ?thesis by simp
qed

lemma set_cond_entry_mem:
  "\<lparr>Type = t, Status = s, Reason = r, Message = m,
     LastTransitionTime =
       (case cond_at cs t of
          None \<Rightarrow> now
        | Some c \<Rightarrow> if Reason c \<noteq> r then now else LastTransitionTime c)\<rparr>
   \<in> set (set_cond now cs t s r m)"
proof (cases "get cs t")
  case None
  then have "cond_at cs t = None" by (rule get_None_cond_at)
  with None show ?thesis
    by (simp add: set_cond_def set_sortConditions)
next
  case (Some i)
  then have c: "cond_at cs t = Some (cs ! i)" and ty: "Type (cs ! i) = t"
    and i: "i < length cs"
    by (simp_all add: get_cond_at get_SomeD)
  have "x \<in> set (cs[i := x])" for x using i by (rule set_update_memI)
  then show ?thesis
    using Some c ty
    by (simp add: set_cond_def set_sortConditions Let_def Condition_update_literal)
qed

lemma set_cond_cond_at_same:
  assumes "count_list (map Type cs) t \<le> 1"
  shows "cond_at (set_cond now cs t s r m) t =
     Some \<lparr>Type = t, Status = s, Reason = r, Message = m,
            LastTransitionTime =
              (case cond_at cs t of
                 None \<Rightarrow> now
               | Some c \<Rightarrow> if Reason c \<noteq> r then now else LastTransitionTime c)\<rparr>"
proof (rule cond_at_unique)
  from assms show "count_list (map Type (set_cond now cs t s r m)) t \<le> 1"
    by (rule set_cond_count_Type)
  show "\<lparr>Type = t, Status = s, Reason = r, Message = m,
     LastTransitionTime =
       (case cond_at cs t of
          None \<Rightarrow> now
        | Some c \<Rightarrow> if Reason c \<noteq> r then now else LastTransitionTime c)\<rparr>
   \<in> set (set_cond now cs t s r m)"
    by (rule set_cond_entry_mem)
qed simp

lemma set_cond_distinct:
  assumes "distinct (map Type cs)"
  shows "distinct (map Type (set_cond now cs t s r m))"
proof (cases "t \<in> Type ` set cs")
  case True
  then have "mset (map Type (set_cond now cs t s r m)) = mset (map Type cs)"
    by (simp only: set_cond_map_Type if_True)
  then have "distinct (map Type (set_cond now cs t s r m)) = distinct (map Type cs)"
    by (rule mset_eq_imp_distinct_iff)
  with assms show ?thesis by simp
next
  case False
  then have "mset (map Type (set_cond now cs t s r m)) = mset (map Type (cs @ [\<lparr>Type = t, Status = s, Reason = r, Message = m, LastTransitionTime = now\<rparr>]))"
    by (simp add: set_cond_map_Type del: mset_map)
  then have "distinct (map Type (set_cond now cs t s r m)) =
             distinct (map Type (cs @ [\<lparr>Type = t, Status = s, Reason = r, Message = m, LastTransitionTime = now\<rparr>]))"
    by (rule mset_eq_imp_distinct_iff)
  with assms False show ?thesis by simp
qed

lemma set_cond_sorted:
  "sorted_wrt (\<lambda>a b. \<not> lexicographicLess b a) (set_cond now cs t s r m)"
  by (simp add: set_cond_def sorted_sortConditions)

lemma set_cond_strict_sorted:
  "distinct (map Type cs) \<Longrightarrow> sorted_wrt lexicographicLess (set_cond now cs t s r m)"
  by (simp add: sorted_distinct_strict set_cond_sorted set_cond_distinct)

lemma filter_update_irrelevant:
  "i < length xs \<Longrightarrow> \<not> P (xs ! i) \<Longrightarrow> \<not> P x \<Longrightarrow> filter P (xs[i := x]) = filter P xs"
proof (induction xs arbitrary: i)
  case Nil
  then show ?case by simp
next
  case (Cons y ys)
  then show ?case by (cases i) auto
qed

lemma set_cond_others:
  "filter_mset (\<lambda>c. Type c \<noteq> t) (mset (set_cond now cs t s r m)) =
   filter_mset (\<lambda>c. Type c \<noteq> t) (mset cs)"
proof (cases "get cs t")
  case None
  then show ?thesis by (simp add: set_cond_def mset_sortConditions)
next
  case (Some i)
  then have i: "i < length cs" and ty: "Type (cs ! i) = t" by (simp_all add: get_SomeD)
  have upd: "filter_mset (\<lambda>c. Type c \<noteq> t) (mset (cs[i := c])) =
        filter_mset (\<lambda>c. Type c \<noteq> t) (mset cs)" if "Type c = t" for c
    using that i ty
      filter_update_irrelevant [of i cs "\<lambda>c. Type c \<noteq> t" c]
    by (metis mset_filter)
  show ?thesis
    using Some ty by (simp add: set_cond_def mset_sortConditions Let_def upd)
qed

lemma set_cond_other_mem:
  assumes "Type c \<noteq> t"
  shows "c \<in> set (set_cond now cs t s r m) \<longleftrightarrow> c \<in> set cs"
proof -
  have "c \<in> set xs \<longleftrightarrow> c \<in># filter_mset (\<lambda>c. Type c \<noteq> t) (mset xs)" for xs
    using assms by simp
  then show ?thesis by (simp only: set_cond_others)
qed

section \<open>Properties of the helpers\<close>

text \<open>
  C8: \<open>lexicographicLess\<close> is a strict total order on conditions with distinct Types.
  It is irreflexive and transitive; of two conditions with distinct Types exactly one is
  less than the other; \<open>Ready\<close> is less than every other Type; two Types other than
  \<open>Ready\<close> compare as their strings do, byte by byte.
\<close>

theorem lexicographicLess_strict_total_order:
  "\<not> lexicographicLess a a \<and>
   (lexicographicLess a b \<and> lexicographicLess b c \<longrightarrow> lexicographicLess a c) \<and>
   (Type a \<noteq> Type b \<longrightarrow> (lexicographicLess a b \<longleftrightarrow> \<not> lexicographicLess b a)) \<and>
   (Type a = Ready \<and> Type b \<noteq> Ready \<longrightarrow> lexicographicLess a b \<and> \<not> lexicographicLess b a) \<and>
   (Type a \<noteq> Ready \<and> Type b \<noteq> Ready \<longrightarrow> (lexicographicLess a b \<longleftrightarrow> Type a < Type b))"
proof -
  have "lexicographicLess a b \<and> lexicographicLess b c \<longrightarrow> lexicographicLess a c"
    using lex_less_trans by blast
  moreover have "Type a \<noteq> Type b \<longrightarrow> (lexicographicLess a b \<longleftrightarrow> \<not> lexicographicLess b a)"
    using lex_less_total lex_less_asym by blast
  moreover have "Type a = Ready \<and> Type b \<noteq> Ready \<longrightarrow>
      lexicographicLess a b \<and> \<not> lexicographicLess b a"
    by (simp add: lexicographicLess_def)
  moreover have "Type a \<noteq> Ready \<and> Type b \<noteq> Ready \<longrightarrow>
      (lexicographicLess a b \<longleftrightarrow> Type a < Type b)"
    by (simp add: lexicographicLess_def)
  ultimately show ?thesis using lex_less_irrefl by blast
qed

theorem lexicographicLess_strict_total_order_witness:
  "lexicographicLess
     \<lparr>Type = ''Ready'', Status = ''True'', Reason = [], Message = [], LastTransitionTime = 3\<rparr>
     \<lparr>Type = ''Database'', Status = ''False'', Reason = ''DBDown'', Message = [],
       LastTransitionTime = 2\<rparr> \<and>
   lexicographicLess
     \<lparr>Type = ''API'', Status = ''True'', Reason = [], Message = [], LastTransitionTime = 1\<rparr>
     \<lparr>Type = ''Database'', Status = ''False'', Reason = ''DBDown'', Message = [],
       LastTransitionTime = 2\<rparr> \<and>
   \<not> lexicographicLess
     \<lparr>Type = ''Database'', Status = ''False'', Reason = ''DBDown'', Message = [],
       LastTransitionTime = 2\<rparr>
     \<lparr>Type = ''API'', Status = ''True'', Reason = [], Message = [], LastTransitionTime = 1\<rparr>"
  (is "lexicographicLess ?r ?d \<and> lexicographicLess ?a ?d \<and> \<not> lexicographicLess ?d ?a")
proof -
  have r: "Type ?r = Ready \<and> Type ?d \<noteq> Ready"
    by (simp add: Ready_def)
  have a: "Type ?a \<noteq> Ready \<and> Type ?d \<noteq> Ready" and ad: "Type ?a < Type ?d"
    and ne: "Type ?a \<noteq> Type ?d"
    by (simp_all add: Ready_def)
  from r lexicographicLess_strict_total_order [of ?r ?d ?a]
  have "lexicographicLess ?r ?d" by blast
  moreover from a ad lexicographicLess_strict_total_order [of ?a ?d ?r]
  have "lexicographicLess ?a ?d" by blast
  moreover from this ne lexicographicLess_strict_total_order [of ?a ?d ?r]
  have "\<not> lexicographicLess ?d ?a" by blast
  ultimately show ?thesis by blast
qed

lemma conds_MarkTrue: "conds (MarkTrue now obj t) = set_cond now (conds obj) t True_status [] []"
  by (simp add: MarkTrue_def GetConditions_def SetConditions_def)

lemma conds_MarkFalse:
  "conds (MarkFalse now obj t r m) = set_cond now (conds obj) t False_status r m"
  by (simp add: MarkFalse_def GetConditions_def SetConditions_def)

lemma conds_MarkUnknown:
  "conds (MarkUnknown now obj t r m) = set_cond now (conds obj) t Unknown_status r m"
  by (simp add: MarkUnknown_def GetConditions_def SetConditions_def)

lemma conds_do_call_mark:
  "mark_args k = Some (t, s, r, m) \<Longrightarrow>
   conds (do_call obj (now, k)) = set_cond now (conds obj) t s r m"
  by (cases k) (auto simp: conds_MarkTrue conds_MarkFalse conds_MarkUnknown)

lemma scanFalse_find:
  "scanFalse cs =
     (case find (\<lambda>c. Type c \<noteq> Ready \<and> Status c = False_status) cs of
        None \<Rightarrow> (False, [], [])
      | Some f \<Rightarrow> (True, Reason f, Message f))"
  by (induction cs) auto

lemma conds_SyncReady:
  "conds (SyncReady now obj) =
     (case find (\<lambda>c. Type c \<noteq> Ready \<and> Status c = False_status) (conds obj) of
        None \<Rightarrow> set_cond now (conds obj) Ready True_status [] []
      | Some f \<Rightarrow> set_cond now (conds obj) Ready False_status (Reason f) (Message f))"
  by (simp add: SyncReady_def GetConditions_def SetConditions_def scanFalse_find
      split: option.splits)

lemma conds_SyncReady_set_cond:
  "\<exists>s r m. conds (SyncReady now obj) = set_cond now (conds obj) Ready s r m"
  by (auto simp: conds_SyncReady split: option.splits)

lemma conds_do_call_set_cond:
  "\<exists>t s r m. conds (do_call obj (now, k)) = set_cond now (conds obj) t s r m"
proof (cases k)
  case Call_SyncReady
  obtain s r m where "conds (SyncReady now obj) = set_cond now (conds obj) Ready s r m"
    using conds_SyncReady_set_cond by blast
  with Call_SyncReady show ?thesis by auto
qed (auto simp: conds_MarkTrue conds_MarkFalse conds_MarkUnknown)

text \<open>
  C1: \<open>SyncReady\<close> sets the \<open>Ready\<close> condition from the other conditions, for every
  condition set (a set has at most one \<open>Ready\<close> entry; entries of other Types may be in
  any order). If some entry of another Type has Status False, \<open>Ready\<close> becomes False
  with the Reason and the Message of the first such entry in the order the set has when
  it is scanned; if none has, \<open>Ready\<close> becomes True with empty Reason and Message,
  whatever entries of Status Unknown the set holds.
\<close>

theorem SyncReady_sets_Ready:
  assumes "count_list (map Type (conds obj)) Ready \<le> 1"
  shows "\<exists>r. cond_at (conds (SyncReady now obj)) Ready = Some r \<and>
     (case find (\<lambda>c. Type c \<noteq> Ready \<and> Status c = False_status) (conds obj) of
        Some f \<Rightarrow> Status r = False_status \<and> Reason r = Reason f \<and> Message r = Message f
      | None \<Rightarrow> Status r = True_status \<and> Reason r = [] \<and> Message r = [])"
  using assms
  by (simp add: conds_SyncReady set_cond_cond_at_same split: option.splits)

theorem SyncReady_sets_Ready_witness:
  "count_list (map Type (conds
      \<lparr>conds = [\<lparr>Type = ''X'', Status = Unknown_status, Reason = ''Pending'',
                   Message = ''waiting'', LastTransitionTime = 3\<rparr>]\<rparr>)) Ready \<le> 1 \<and>
   (\<exists>r. cond_at (conds (SyncReady 7
            \<lparr>conds = [\<lparr>Type = ''X'', Status = Unknown_status, Reason = ''Pending'',
                        Message = ''waiting'', LastTransitionTime = 3\<rparr>]\<rparr>)) Ready = Some r \<and>
        Status r = True_status \<and> Reason r = [] \<and> Message r = [])"
  (is "count_list (map Type (conds ?obj)) Ready \<le> 1 \<and> _")
proof -
  have h: "count_list (map Type (conds ?obj)) Ready \<le> 1"
    by (simp add: Ready_def)
  have n: "find (\<lambda>c. Type c \<noteq> Ready \<and> Status c = False_status) (conds ?obj) = None"
    by (simp add: Unknown_status_def False_status_def)
  from SyncReady_sets_Ready [OF h, of 7] n h show ?thesis by simp
qed

text \<open>
  C2, as the code has it: a \<open>Mark*\<close> call on a Type that has an entry (one entry, as
  in every condition set) sets the entry's \<open>LastTransitionTime\<close> to the current time if
  the call's Reason differs from the stored Reason, and leaves it unchanged if the Reason
  is the same, whatever happens to the Status; a changed Reason strictly increases it
  whenever the current time is later than the stored time. For a Type without an entry
  the new entry's \<open>LastTransitionTime\<close> is the current time.
\<close>

theorem Mark_transition_time:
  assumes "mark_args k = Some (t, s, r, m)"
    and "count_list (map Type (conds obj)) t \<le> 1"
  shows "\<exists>c'. cond_at (conds (do_call obj (now, k))) t = Some c' \<and>
     (case cond_at (conds obj) t of
        None \<Rightarrow> LastTransitionTime c' = now
      | Some c \<Rightarrow>
          (Reason c \<noteq> r \<longrightarrow> LastTransitionTime c' = now) \<and>
          (Reason c = r \<longrightarrow> LastTransitionTime c' = LastTransitionTime c) \<and>
          (Reason c \<noteq> r \<and> LastTransitionTime c < now \<longrightarrow>
             LastTransitionTime c < LastTransitionTime c'))"
  using assms
  by (simp add: conds_do_call_mark set_cond_cond_at_same split: option.splits)

theorem Mark_transition_time_witness:
  "mark_args (Call_MarkFalse ''Cache'' ''CacheDown'' ''cache offline'') =
     Some (''Cache'', False_status, ''CacheDown'', ''cache offline'') \<and>
   count_list (map Type (conds
      \<lparr>conds = [\<lparr>Type = ''Cache'', Status = True_status, Reason = [], Message = [],
                   LastTransitionTime = 1\<rparr>]\<rparr>)) ''Cache'' \<le> 1 \<and>
   (\<exists>c'. cond_at (conds (do_call
              \<lparr>conds = [\<lparr>Type = ''Cache'', Status = True_status, Reason = [], Message = [],
                           LastTransitionTime = 1\<rparr>]\<rparr>
              (2, Call_MarkFalse ''Cache'' ''CacheDown'' ''cache offline''))) ''Cache'' = Some c' \<and>
         LastTransitionTime c' = 2 \<and> 1 < LastTransitionTime c')"
proof -
  let ?k = "Call_MarkFalse ''Cache'' ''CacheDown'' ''cache offline''"
  let ?obj = "\<lparr>conds = [\<lparr>Type = ''Cache'', Status = True_status, Reason = [], Message = [],
                           LastTransitionTime = 1\<rparr>]\<rparr>"
  have h: "mark_args ?k = Some (''Cache'', False_status, ''CacheDown'', ''cache offline'')"
    by simp
  have u: "count_list (map Type (conds ?obj)) ''Cache'' \<le> 1" by simp
  from Mark_transition_time [OF h u, of 2] h u show ?thesis by auto
qed

text \<open>
  The refreshed time is the clock reading, whatever the stored time is: two calls that
  read the same clock value, a \<open>MarkTrue\<close> and then a \<open>MarkFalse\<close> with a new Reason,
  leave \<open>LastTransitionTime\<close> where it was.
\<close>

theorem Mark_transition_time_not_strict:
  "conds (MarkTrue 5 \<lparr>conds = []\<rparr> ''Cache'') =
     [\<lparr>Type = ''Cache'', Status = True_status, Reason = [], Message = [],
        LastTransitionTime = 5\<rparr>] \<and>
   conds (MarkFalse 5 (MarkTrue 5 \<lparr>conds = []\<rparr> ''Cache'') ''Cache'' ''CacheDown''
            ''cache offline'') =
     [\<lparr>Type = ''Cache'', Status = False_status, Reason = ''CacheDown'',
        Message = ''cache offline'', LastTransitionTime = 5\<rparr>] \<and>
   Reason \<lparr>Type = ''Cache'', Status = True_status, Reason = [], Message = [],
            LastTransitionTime = 5\<rparr> \<noteq> ''CacheDown'' \<and>
   \<not> LastTransitionTime \<lparr>Type = ''Cache'', Status = True_status, Reason = [], Message = [],
            LastTransitionTime = 5\<rparr>
     < LastTransitionTime \<lparr>Type = ''Cache'', Status = False_status, Reason = ''CacheDown'',
            Message = ''cache offline'', LastTransitionTime = 5\<rparr>"
  by code_simp

text \<open>
  C5, as the code has it: \<open>IsTrue\<close> returns true if and only if the first entry of
  Type \<open>t\<close> in the current set, the one the lookup finds, has Status True; in a set
  with one entry per Type this is: some entry has Type \<open>t\<close> and Status True. When no
  entry has Type \<open>t\<close> it returns false. The index \<open>get\<close> returns lies inside the
  slice (\<open>get_SomeD\<close>), so the read never fails.
\<close>

theorem IsTrue_iff:
  "(IsTrue obj t \<longleftrightarrow>
      (\<exists>i<length (conds obj). Type (conds obj ! i) = t \<and> (\<forall>j<i. Type (conds obj ! j) \<noteq> t) \<and>
         Status (conds obj ! i) = True_status)) \<and>
   (distinct (map Type (conds obj)) \<longrightarrow>
      (IsTrue obj t \<longleftrightarrow> (\<exists>c\<in>set (conds obj). Type c = t \<and> Status c = True_status))) \<and>
   ((\<forall>c\<in>set (conds obj). Type c \<noteq> t) \<longrightarrow> \<not> IsTrue obj t)"
proof -
  have 1: "IsTrue obj t \<longleftrightarrow>
      (\<exists>i<length (conds obj). Type (conds obj ! i) = t \<and> (\<forall>j<i. Type (conds obj ! j) \<noteq> t) \<and>
         Status (conds obj ! i) = True_status)"
  proof -
    have "(\<exists>i<length (conds obj). Type (conds obj ! i) = t \<and>
             (\<forall>j<i. Type (conds obj ! j) \<noteq> t) \<and> Status (conds obj ! i) = True_status) \<longleftrightarrow>
          (\<exists>i. get (conds obj) t = Some i \<and> Status (conds obj ! i) = True_status)"
      by (simp only: get_Some_iff) blast
    moreover have "IsTrue obj t \<longleftrightarrow>
          (\<exists>i. get (conds obj) t = Some i \<and> Status (conds obj ! i) = True_status)"
      by (simp add: IsTrue_def GetConditions_def Let_def split: option.splits)
    ultimately show ?thesis by simp
  qed
  have c: "IsTrue obj t \<longleftrightarrow> (\<exists>c. cond_at (conds obj) t = Some c \<and> Status c = True_status)"
    by (simp add: IsTrue_def GetConditions_def cond_at_def Let_def split: option.splits)
  have 2: "IsTrue obj t \<longleftrightarrow> (\<exists>c\<in>set (conds obj). Type c = t \<and> Status c = True_status)"
    if "distinct (map Type (conds obj))"
    using that c cond_at_distinct [of "conds obj"] cond_at_SomeD [of "conds obj" t]
    by (metis option.inject)
  have 3: "\<not> IsTrue obj t" if "\<forall>c\<in>set (conds obj). Type c \<noteq> t"
    using that c cond_at_None_iff [of "conds obj" t] by simp
  from 1 2 3 show ?thesis by blast
qed

theorem IsTrue_iff_witness:
  "IsTrue \<lparr>conds = [\<lparr>Type = ''API'', Status = True_status, Reason = [], Message = [],
                       LastTransitionTime = 1\<rparr>,
                     \<lparr>Type = ''Database'', Status = False_status, Reason = ''DBDown'',
                       Message = ''database unreachable'', LastTransitionTime = 2\<rparr>]\<rparr> ''API'' \<and>
   \<not> IsTrue \<lparr>conds = [\<lparr>Type = ''API'', Status = True_status, Reason = [], Message = [],
                       LastTransitionTime = 1\<rparr>,
                     \<lparr>Type = ''Database'', Status = False_status, Reason = ''DBDown'',
                       Message = ''database unreachable'', LastTransitionTime = 2\<rparr>]\<rparr> ''Database'' \<and>
   \<not> IsTrue \<lparr>conds = [\<lparr>Type = ''API'', Status = True_status, Reason = [], Message = [],
                       LastTransitionTime = 1\<rparr>,
                     \<lparr>Type = ''Database'', Status = False_status, Reason = ''DBDown'',
                       Message = ''database unreachable'', LastTransitionTime = 2\<rparr>]\<rparr> ''Cache''"
  (is "IsTrue ?obj ''API'' \<and> \<not> IsTrue ?obj ''Database'' \<and> \<not> IsTrue ?obj ''Cache''")
proof -
  have d: "distinct (map Type (conds ?obj))" by simp
  have a: "\<exists>c\<in>set (conds ?obj). Type c = ''API'' \<and> Status c = True_status" by simp
  have b: "\<not> (\<exists>c\<in>set (conds ?obj). Type c = ''Database'' \<and> Status c = True_status)"
    by (simp add: True_status_def False_status_def)
  have c: "\<forall>c\<in>set (conds ?obj). Type c \<noteq> ''Cache''" by simp
  from IsTrue_iff [of ?obj "''API''"] d a have "IsTrue ?obj ''API''" by blast
  moreover from IsTrue_iff [of ?obj "''Database''"] d b have "\<not> IsTrue ?obj ''Database''"
    by blast
  moreover from IsTrue_iff [of ?obj "''Cache''"] c have "\<not> IsTrue ?obj ''Cache''" by blast
  ultimately show ?thesis by blast
qed

text \<open>
  Behind an accessor that holds two entries of one Type the first one decides: a later
  entry of Type \<open>A\<close> with Status True does not make \<open>IsTrue\<close> true.
\<close>

theorem IsTrue_first_entry_decides:
  "\<lparr>Type = ''A'', Status = True_status, Reason = [], Message = [], LastTransitionTime = 2\<rparr>
     \<in> set (conds
         \<lparr>conds = [\<lparr>Type = ''A'', Status = False_status, Reason = ''Down'', Message = [],
                      LastTransitionTime = 1\<rparr>,
                    \<lparr>Type = ''A'', Status = True_status, Reason = [], Message = [],
                      LastTransitionTime = 2\<rparr>]\<rparr>) \<and>
   \<not> IsTrue
         \<lparr>conds = [\<lparr>Type = ''A'', Status = False_status, Reason = ''Down'', Message = [],
                      LastTransitionTime = 1\<rparr>,
                    \<lparr>Type = ''A'', Status = True_status, Reason = [], Message = [],
                      LastTransitionTime = 2\<rparr>]\<rparr> ''A''"
  by code_simp

text \<open>
  C7: no helper call deletes a condition. Every Type present before a call is present
  after it; a \<open>Mark*\<close> call on \<open>t\<close> leaves every entry of another Type in the set with
  all its fields, and adds no entry of another Type; so does \<open>SyncReady\<close> for every
  Type other than \<open>Ready\<close>.
\<close>

theorem no_condition_deleted:
  "Type ` set (conds obj) \<subseteq> Type ` set (conds (do_call obj (now, k))) \<and>
   (\<forall>t s r m. mark_args k = Some (t, s, r, m) \<longrightarrow>
      (\<forall>c. Type c \<noteq> t \<longrightarrow>
         (c \<in> set (conds (do_call obj (now, k))) \<longleftrightarrow> c \<in> set (conds obj)))) \<and>
   (k = Call_SyncReady \<longrightarrow>
      (\<forall>c. Type c \<noteq> Ready \<longrightarrow>
         (c \<in> set (conds (do_call obj (now, k))) \<longleftrightarrow> c \<in> set (conds obj))))"
proof -
  obtain t s r m where "conds (do_call obj (now, k)) = set_cond now (conds obj) t s r m"
    using conds_do_call_set_cond by blast
  then have 1: "Type ` set (conds obj) \<subseteq> Type ` set (conds (do_call obj (now, k)))"
    by (auto simp: set_cond_Types)
  have 2: "c \<in> set (conds (do_call obj (now, k))) \<longleftrightarrow> c \<in> set (conds obj)"
    if "mark_args k = Some (t, s, r, m)" and "Type c \<noteq> t" for t s r m c
    using that by (simp add: conds_do_call_mark set_cond_other_mem)
  have 3: "c \<in> set (conds (do_call obj (now, k))) \<longleftrightarrow> c \<in> set (conds obj)"
    if "k = Call_SyncReady" and "Type c \<noteq> Ready" for c
  proof -
    obtain s r m where "conds (SyncReady now obj) = set_cond now (conds obj) Ready s r m"
      using conds_SyncReady_set_cond by blast
    with that show ?thesis by (simp add: set_cond_other_mem)
  qed
  from 1 2 3 show ?thesis by blast
qed

theorem no_condition_deleted_witness:
  "mark_args (Call_MarkFalse ''Database'' ''DBDown'' ''database unreachable'') =
     Some (''Database'', False_status, ''DBDown'', ''database unreachable'') \<and>
   \<lparr>Type = ''API'', Status = True_status, Reason = [], Message = [], LastTransitionTime = 1\<rparr>
     \<in> set (conds (do_call
          \<lparr>conds = [\<lparr>Type = ''API'', Status = True_status, Reason = [], Message = [],
                       LastTransitionTime = 1\<rparr>,
                     \<lparr>Type = ''Database'', Status = True_status, Reason = [], Message = [],
                       LastTransitionTime = 2\<rparr>]\<rparr>
          (3, Call_MarkFalse ''Database'' ''DBDown'' ''database unreachable''))) \<and>
   ''Database'' \<in> Type ` set (conds (do_call
          \<lparr>conds = [\<lparr>Type = ''API'', Status = True_status, Reason = [], Message = [],
                       LastTransitionTime = 1\<rparr>,
                     \<lparr>Type = ''Database'', Status = True_status, Reason = [], Message = [],
                       LastTransitionTime = 2\<rparr>]\<rparr>
          (3, Call_MarkFalse ''Database'' ''DBDown'' ''database unreachable'')))"
  (is "mark_args ?k = _ \<and> ?api \<in> set (conds (do_call ?obj (3, ?k))) \<and> _")
proof -
  have h: "mark_args ?k = Some (''Database'', False_status, ''DBDown'', ''database unreachable'')"
    by simp
  have ne: "Type ?api \<noteq> ''Database''" by simp
  have mem: "?api \<in> set (conds ?obj)" by simp
  have ty: "''Database'' \<in> Type ` set (conds ?obj)" by simp
  from no_condition_deleted [of ?obj 3 ?k] h ne mem
  have "?api \<in> set (conds (do_call ?obj (3, ?k)))" by blast
  moreover from no_condition_deleted [of ?obj 3 ?k] ty
  have "''Database'' \<in> Type ` set (conds (do_call ?obj (3, ?k)))" by blast
  ultimately show ?thesis using h by blast
qed

lemma run_calls_Nil: "run_calls obj [] = obj"
  by (simp add: run_calls_def)

lemma run_calls_snoc: "run_calls obj (cs @ [c]) = do_call (run_calls obj cs) c"
  by (simp add: run_calls_def)

lemma do_call_distinct:
  assumes "distinct (map Type (conds obj))"
  shows "distinct (map Type (conds (do_call obj c)))"
proof -
  obtain now k where c: "c = (now, k)" by (cases c)
  obtain t s r m where "conds (do_call obj (now, k)) = set_cond now (conds obj) t s r m"
    using conds_do_call_set_cond by blast
  with assms c show ?thesis by (simp add: set_cond_distinct)
qed

lemma do_call_strict_sorted:
  assumes "distinct (map Type (conds obj))"
  shows "sorted_wrt lexicographicLess (conds (do_call obj c))"
proof -
  obtain now k where c: "c = (now, k)" by (cases c)
  obtain t s r m where "conds (do_call obj (now, k)) = set_cond now (conds obj) t s r m"
    using conds_do_call_set_cond by blast
  with assms c show ?thesis by (simp add: set_cond_strict_sorted)
qed

lemma run_calls_distinct:
  "distinct (map Type (conds obj)) \<Longrightarrow> distinct (map Type (conds (run_calls obj cs)))"
  by (induction cs rule: rev_induct) (simp_all add: run_calls_Nil run_calls_snoc do_call_distinct)

lemma run_calls_strict_sorted:
  assumes "sorted_wrt lexicographicLess (conds obj)"
  shows "sorted_wrt lexicographicLess (conds (run_calls obj cs))"
proof (cases cs rule: rev_cases)
  case Nil
  with assms show ?thesis by (simp add: run_calls_Nil)
next
  case (snoc cs' c)
  from assms have "distinct (map Type (conds obj))" by (rule strict_sorted_imp_distinct)
  then have "distinct (map Type (conds (run_calls obj cs')))" by (rule run_calls_distinct)
  then show ?thesis unfolding snoc run_calls_snoc by (rule do_call_strict_sorted)
qed

lemma lex_less_right_not_Ready: "lexicographicLess a b \<Longrightarrow> Type b \<noteq> Ready"
  by (auto simp: lex_less_iff)

lemma strict_sorted_Types:
  "sorted_wrt lexicographicLess xs \<Longrightarrow> \<forall>c\<in>set xs. Type c \<noteq> Ready \<Longrightarrow>
   sorted_wrt (<) (map Type xs)"
  by (induction xs) (auto simp: lex_less_iff)

lemma strict_sorted_shape:
  assumes "sorted_wrt lexicographicLess r"
  shows "if \<exists>c\<in>set r. Type c = Ready
         then Type (r ! 0) = Ready \<and> (\<forall>c\<in>set (tl r). Type c \<noteq> Ready) \<and>
              sorted_wrt (<) (map Type (tl r))
         else sorted_wrt (<) (map Type r)"
proof (cases r)
  case Nil
  then show ?thesis by simp
next
  case (Cons x xs)
  with assms have xs: "sorted_wrt lexicographicLess xs" and "\<forall>y\<in>set xs. lexicographicLess x y"
    by simp_all
  then have nr: "\<forall>y\<in>set xs. Type y \<noteq> Ready" using lex_less_right_not_Ready by blast
  with xs have sx: "sorted_wrt (<) (map Type xs)" by (rule strict_sorted_Types)
  show ?thesis
  proof (cases "Type x = Ready")
    case True
    with Cons nr sx show ?thesis by auto
  next
    case False
    with nr Cons have "\<forall>c\<in>set r. Type c \<noteq> Ready" by auto
    with assms have "sorted_wrt (<) (map Type r)" by (rule strict_sorted_Types)
    with False nr Cons show ?thesis by auto
  qed
qed

text \<open>
  C3: after each call of a sequence of \<open>Mark*\<close> and \<open>SyncReady\<close> calls that starts from
  the empty set, the set written back has \<open>Ready\<close>, if present, at index 0, and the
  remaining entries are not \<open>Ready\<close> and strictly ascending in the byte-wise order of
  their Types.
\<close>

theorem sort_invariant:
  "n \<le> length cs \<Longrightarrow> r = conds (run_calls \<lparr>conds = []\<rparr> (take n cs)) \<Longrightarrow>
   (if \<exists>c\<in>set r. Type c = Ready
    then Type (r ! 0) = Ready \<and> (\<forall>c\<in>set (tl r). Type c \<noteq> Ready) \<and>
         sorted_wrt (<) (map Type (tl r))
    else sorted_wrt (<) (map Type r))"
proof -
  assume "r = conds (run_calls \<lparr>conds = []\<rparr> (take n cs))"
  moreover have "sorted_wrt lexicographicLess (conds (run_calls \<lparr>conds = []\<rparr> (take n cs)))"
    by (rule run_calls_strict_sorted) simp
  ultimately have "sorted_wrt lexicographicLess r" by simp
  then show ?thesis by (rule strict_sorted_shape)
qed

theorem sort_invariant_witness:
  "4 \<le> length [(1, Call_MarkTrue ''B''), (2, Call_MarkTrue ''A''),
                (3, Call_MarkUnknown ''C'' [] []), (4::int, Call_SyncReady)] \<and>
   map Type (conds (run_calls \<lparr>conds = []\<rparr>
       (take 4 [(1, Call_MarkTrue ''B''), (2, Call_MarkTrue ''A''),
                (3, Call_MarkUnknown ''C'' [] []), (4, Call_SyncReady)]))) =
     [Ready, ''A'', ''B'', ''C''] \<and>
   sorted_wrt (<) (map Type (tl (conds (run_calls \<lparr>conds = []\<rparr>
       (take 4 [(1, Call_MarkTrue ''B''), (2, Call_MarkTrue ''A''),
                (3, Call_MarkUnknown ''C'' [] []), (4, Call_SyncReady)])))))"
  (is "4 \<le> length ?cs \<and> map Type (conds (run_calls ?e (take 4 ?cs))) = _ \<and> _")
proof -
  have n: "4 \<le> length ?cs" by simp
  have v: "map Type (conds (run_calls ?e (take 4 ?cs))) = [Ready, ''A'', ''B'', ''C'']"
    by code_simp
  have g: "x \<in> set (map f xs) \<Longrightarrow> \<exists>c\<in>set xs. f c = x" for x :: string and f and xs :: "Condition list"
    by auto
  have "Ready \<in> set (map Type (conds (run_calls ?e (take 4 ?cs))))"
    by (simp only: v list.set_intros)
  then have ex: "\<exists>c\<in>set (conds (run_calls ?e (take 4 ?cs))). Type c = Ready"
    by (rule g)
  from sort_invariant [OF n refl]
  have "sorted_wrt (<) (map Type (tl (conds (run_calls ?e (take 4 ?cs)))))"
    by (simp only: ex if_True)
  with n v show ?thesis by blast
qed

text \<open>
  C4: after each call of a sequence of \<open>Mark*\<close> and \<open>SyncReady\<close> calls that starts from
  a set without duplicate Types, the set has at most one entry per Type.
\<close>

theorem uniqueness_invariant:
  "distinct (map Type (conds obj)) \<Longrightarrow> n \<le> length cs \<Longrightarrow>
   distinct (map Type (conds (run_calls obj (take n cs))))"
  by (rule run_calls_distinct)

theorem uniqueness_invariant_witness:
  "distinct (map Type (conds
      \<lparr>conds = [\<lparr>Type = ''Database'', Status = True_status, Reason = [], Message = [],
                   LastTransitionTime = 1\<rparr>]\<rparr>)) \<and>
   2 \<le> length [(2, Call_MarkFalse ''Database'' ''DBDown'' ''database unreachable''),
                (3::int, Call_SyncReady)] \<and>
   distinct (map Type (conds (run_calls
      \<lparr>conds = [\<lparr>Type = ''Database'', Status = True_status, Reason = [], Message = [],
                   LastTransitionTime = 1\<rparr>]\<rparr>
      (take 2 [(2, Call_MarkFalse ''Database'' ''DBDown'' ''database unreachable''),
               (3, Call_SyncReady)]))))"
  (is "distinct (map Type (conds ?obj)) \<and> 2 \<le> length ?cs \<and> _")
proof -
  have d: "distinct (map Type (conds ?obj))" by simp
  have n: "2 \<le> length ?cs" by simp
  from d n uniqueness_invariant [OF d n] show ?thesis by blast
qed

lemma stub_eqI: "conds a = conds b \<Longrightarrow> (a::stub) = b"
  by simp

lemma set_cond_fixed:
  assumes "get cs t = Some i"
    and "Status (cs ! i) = s" and "Reason (cs ! i) = r" and "Message (cs ! i) = m"
    and "sorted_wrt lexicographicLess cs"
  shows "set_cond now cs t s r m = cs"
proof -
  have "(cs ! i)\<lparr>Status := s, Reason := r, Message := m\<rparr> = cs ! i"
    using assms(2-4) by (cases "cs ! i") auto
  then have "cs[i := (cs ! i)\<lparr>Status := s, Reason := r, Message := m\<rparr>] = cs"
    by simp
  with assms(1,3) have "set_cond now cs t s r m = sortConditions cs"
    by (simp add: set_cond_def Let_def)
  with assms(5) show ?thesis by (simp add: sortConditions_strict_sorted_id)
qed

lemma set_cond_idem:
  assumes "distinct (map Type cs)"
  shows "set_cond now' (set_cond now cs t s r m) t s r m = set_cond now cs t s r m"
proof -
  let ?cs1 = "set_cond now cs t s r m"
  from assms have "count_list (map Type cs) t \<le> 1" by (rule distinct_count_list_le1)
  then obtain c1 where c1: "cond_at ?cs1 t = Some c1"
    and f: "Status c1 = s" "Reason c1 = r" "Message c1 = m"
    by (simp add: set_cond_cond_at_same)
  then obtain i where i: "get ?cs1 t = Some i" and ci: "?cs1 ! i = c1"
    by (auto simp: cond_at_def split: option.splits)
  from assms have "sorted_wrt lexicographicLess ?cs1" by (rule set_cond_strict_sorted)
  with i ci f show ?thesis by (simp add: set_cond_fixed)
qed

lemma find_filter_nonReady:
  "find (\<lambda>c. Type c \<noteq> Ready \<and> Q c) xs = find (\<lambda>c. Type c \<noteq> Ready \<and> Q c) (filter (\<lambda>c. Type c \<noteq> Ready) xs)"
  by (induction xs) auto

lemma filter_nonReady_set_cond:
  assumes "sorted_wrt lexicographicLess cs"
  shows "filter (\<lambda>c. Type c \<noteq> Ready) (set_cond now cs Ready s r m) =
         filter (\<lambda>c. Type c \<noteq> Ready) cs"
proof (rule strict_sorted_unique)
  from assms have "distinct (map Type cs)" by (rule strict_sorted_imp_distinct)
  then have "sorted_wrt lexicographicLess (set_cond now cs Ready s r m)"
    by (rule set_cond_strict_sorted)
  then show "sorted_wrt lexicographicLess (filter (\<lambda>c. Type c \<noteq> Ready) (set_cond now cs Ready s r m))"
    by (rule sorted_wrt_filter)
  from assms show "sorted_wrt lexicographicLess (filter (\<lambda>c. Type c \<noteq> Ready) cs)"
    by (rule sorted_wrt_filter)
  show "set (filter (\<lambda>c. Type c \<noteq> Ready) (set_cond now cs Ready s r m)) =
        set (filter (\<lambda>c. Type c \<noteq> Ready) cs)"
    using set_cond_other_mem [of _ Ready now cs s r m] by auto
qed

lemma SyncReady_idem:
  assumes "sorted_wrt lexicographicLess (conds obj)"
  shows "SyncReady now' (SyncReady now obj) = SyncReady now obj"
proof (rule stub_eqI)
  let ?P = "\<lambda>c. Type c \<noteq> Ready \<and> Status c = False_status"
  obtain s r m where 1: "conds (SyncReady now obj) = set_cond now (conds obj) Ready s r m"
    using conds_SyncReady_set_cond by blast
  have "find ?P (conds (SyncReady now obj)) =
        find ?P (filter (\<lambda>c. Type c \<noteq> Ready) (conds (SyncReady now obj)))"
    by (rule find_filter_nonReady)
  also have "\<dots> = find ?P (filter (\<lambda>c. Type c \<noteq> Ready) (conds obj))"
    using assms by (simp add: 1 filter_nonReady_set_cond)
  also have "\<dots> = find ?P (conds obj)"
    by (rule find_filter_nonReady [symmetric])
  finally have same: "find ?P (conds (SyncReady now obj)) = find ?P (conds obj)" .
  from assms have d: "distinct (map Type (conds obj))" by (rule strict_sorted_imp_distinct)
  show "conds (SyncReady now' (SyncReady now obj)) = conds (SyncReady now obj)"
  proof (cases "find ?P (conds obj)")
    case None
    with same show ?thesis
      by (simp add: conds_SyncReady [of now' "SyncReady now obj"] conds_SyncReady [of now obj]
          set_cond_idem [OF d])
  next
    case (Some f)
    with same show ?thesis
      by (simp add: conds_SyncReady [of now' "SyncReady now obj"] conds_SyncReady [of now obj]
          set_cond_idem [OF d])
  qed
qed

text \<open>
  C9, as the code has it: on a set with at most one entry per Type, repeating a
  \<open>Mark*\<close> call with the same arguments, at any clock reading, leaves the set as the
  first call left it; repeating \<open>SyncReady\<close> does so when the set it started from is,
  in addition, in the order the helpers maintain (\<open>Ready\<close> first, the rest strictly
  ascending by Type).
\<close>

theorem helpers_idempotent:
  assumes "distinct (map Type (conds obj))"
    and "k = Call_SyncReady \<longrightarrow> sorted_wrt lexicographicLess (conds obj)"
  shows "do_call (do_call obj (now, k)) (now', k) = do_call obj (now, k)"
proof (cases k)
  case Call_SyncReady
  with assms(2) show ?thesis by (simp add: SyncReady_idem)
next
  case (Call_MarkTrue t)
  show ?thesis unfolding Call_MarkTrue
    by (rule stub_eqI) (simp add: conds_MarkTrue set_cond_idem [OF assms(1)])
next
  case (Call_MarkFalse t r m)
  show ?thesis unfolding Call_MarkFalse
    by (rule stub_eqI) (simp add: conds_MarkFalse set_cond_idem [OF assms(1)])
next
  case (Call_MarkUnknown t r m)
  show ?thesis unfolding Call_MarkUnknown
    by (rule stub_eqI) (simp add: conds_MarkUnknown set_cond_idem [OF assms(1)])
qed

theorem helpers_idempotent_witness:
  "distinct (map Type (conds
      \<lparr>conds = [\<lparr>Type = ''A'', Status = False_status, Reason = ''ra'', Message = ''ma'',
                   LastTransitionTime = 0\<rparr>,
                 \<lparr>Type = ''B'', Status = False_status, Reason = ''rb'', Message = ''mb'',
                   LastTransitionTime = 0\<rparr>]\<rparr>)) \<and>
   sorted_wrt lexicographicLess (conds
      \<lparr>conds = [\<lparr>Type = ''A'', Status = False_status, Reason = ''ra'', Message = ''ma'',
                   LastTransitionTime = 0\<rparr>,
                 \<lparr>Type = ''B'', Status = False_status, Reason = ''rb'', Message = ''mb'',
                   LastTransitionTime = 0\<rparr>]\<rparr>) \<and>
   do_call (do_call
      \<lparr>conds = [\<lparr>Type = ''A'', Status = False_status, Reason = ''ra'', Message = ''ma'',
                   LastTransitionTime = 0\<rparr>,
                 \<lparr>Type = ''B'', Status = False_status, Reason = ''rb'', Message = ''mb'',
                   LastTransitionTime = 0\<rparr>]\<rparr> (1, Call_SyncReady)) (2, Call_SyncReady) =
   do_call
      \<lparr>conds = [\<lparr>Type = ''A'', Status = False_status, Reason = ''ra'', Message = ''ma'',
                   LastTransitionTime = 0\<rparr>,
                 \<lparr>Type = ''B'', Status = False_status, Reason = ''rb'', Message = ''mb'',
                   LastTransitionTime = 0\<rparr>]\<rparr> (1, Call_SyncReady) \<and>
   do_call (do_call
      \<lparr>conds = [\<lparr>Type = ''A'', Status = False_status, Reason = ''ra'', Message = ''ma'',
                   LastTransitionTime = 0\<rparr>,
                 \<lparr>Type = ''B'', Status = False_status, Reason = ''rb'', Message = ''mb'',
                   LastTransitionTime = 0\<rparr>]\<rparr> (1, Call_MarkTrue ''B'')) (2, Call_MarkTrue ''B'') =
   do_call
      \<lparr>conds = [\<lparr>Type = ''A'', Status = False_status, Reason = ''ra'', Message = ''ma'',
                   LastTransitionTime = 0\<rparr>,
                 \<lparr>Type = ''B'', Status = False_status, Reason = ''rb'', Message = ''mb'',
                   LastTransitionTime = 0\<rparr>]\<rparr> (1, Call_MarkTrue ''B'')"
  (is "distinct (map Type (conds ?obj)) \<and> _")
proof -
  have d: "distinct (map Type (conds ?obj))" by simp
  have s: "sorted_wrt lexicographicLess (conds ?obj)"
    by (simp add: lexicographicLess_def Ready_def)
  then have h: "Call_SyncReady = Call_SyncReady \<longrightarrow> sorted_wrt lexicographicLess (conds ?obj)"
    by simp
  have h': "Call_MarkTrue ''B'' = Call_SyncReady \<longrightarrow> sorted_wrt lexicographicLess (conds ?obj)"
    by simp
  from d s helpers_idempotent [OF d h, of 1 2] helpers_idempotent [OF d h', of 1 2]
  show ?thesis by blast
qed

text \<open>
  On a set that is not in that order the first \<open>SyncReady\<close> sorts it, and the second
  scan can meet another False condition first: with \<open>B\<close> stored before \<open>A\<close>, both
  False, \<open>Ready\<close> takes the reason of \<open>B\<close> in the first call and that of \<open>A\<close>, with a
  new \<open>LastTransitionTime\<close>, in the second.
\<close>

theorem SyncReady_not_idempotent_unsorted:
  "conds (SyncReady 1
      \<lparr>conds = [\<lparr>Type = ''B'', Status = False_status, Reason = ''rb'', Message = ''mb'',
                   LastTransitionTime = 0\<rparr>,
                 \<lparr>Type = ''A'', Status = False_status, Reason = ''ra'', Message = ''ma'',
                   LastTransitionTime = 0\<rparr>]\<rparr>) =
     [\<lparr>Type = Ready, Status = False_status, Reason = ''rb'', Message = ''mb'',
        LastTransitionTime = 1\<rparr>,
      \<lparr>Type = ''A'', Status = False_status, Reason = ''ra'', Message = ''ma'',
        LastTransitionTime = 0\<rparr>,
      \<lparr>Type = ''B'', Status = False_status, Reason = ''rb'', Message = ''mb'',
        LastTransitionTime = 0\<rparr>] \<and>
   conds (SyncReady 2 (SyncReady 1
      \<lparr>conds = [\<lparr>Type = ''B'', Status = False_status, Reason = ''rb'', Message = ''mb'',
                   LastTransitionTime = 0\<rparr>,
                 \<lparr>Type = ''A'', Status = False_status, Reason = ''ra'', Message = ''ma'',
                   LastTransitionTime = 0\<rparr>]\<rparr>)) =
     [\<lparr>Type = Ready, Status = False_status, Reason = ''ra'', Message = ''ma'',
        LastTransitionTime = 2\<rparr>,
      \<lparr>Type = ''A'', Status = False_status, Reason = ''ra'', Message = ''ma'',
        LastTransitionTime = 0\<rparr>,
      \<lparr>Type = ''B'', Status = False_status, Reason = ''rb'', Message = ''mb'',
        LastTransitionTime = 0\<rparr>] \<and>
   SyncReady 2 (SyncReady 1
      \<lparr>conds = [\<lparr>Type = ''B'', Status = False_status, Reason = ''rb'', Message = ''mb'',
                   LastTransitionTime = 0\<rparr>,
                 \<lparr>Type = ''A'', Status = False_status, Reason = ''ra'', Message = ''ma'',
                   LastTransitionTime = 0\<rparr>]\<rparr>)
   \<noteq> SyncReady 1
      \<lparr>conds = [\<lparr>Type = ''B'', Status = False_status, Reason = ''rb'', Message = ''mb'',
                   LastTransitionTime = 0\<rparr>,
                 \<lparr>Type = ''A'', Status = False_status, Reason = ''ra'', Message = ''ma'',
                   LastTransitionTime = 0\<rparr>]\<rparr>"
  by code_simp

section \<open>The helpers on the store\<close>

lemma elems_calls [simp]: "elems (m\<lparr>calls := x\<rparr>) s = elems m s"
  by (cases s) (simp_all add: elems_def)

lemma elems_stub_conds [simp]: "elems (m\<lparr>stub_conds := x\<rparr>) s = elems m s"
  by (cases s) (simp_all add: elems_def)

lemma elems_None [simp]: "elems m None = []"
  by (simp add: elems_def)

lemma elems_alloc:
  "alloc xs m = (c, m') \<Longrightarrow>
   elems m' c = xs \<and> c = Some (length (arrays m)) \<and> arrays m' = arrays m @ [xs] \<and>
   calls m' = calls m \<and> stub_conds m' = stub_conds m"
  by (auto simp: alloc_def elems_def)

lemma m_copy_spec:
  assumes "m_copy src m = (c, m')"
  shows "elems m' c = elems m src \<and> take (length (arrays m)) (arrays m') = arrays m \<and>
         (case c of None \<Rightarrow> True | Some a \<Rightarrow> length (arrays m) \<le> a \<and> a < length (arrays m')) \<and>
         calls m' = calls m \<and> stub_conds m' = stub_conds m"
proof (cases "elems m src = []")
  case True
  with assms show ?thesis by (auto simp: m_copy_def)
next
  case False
  with assms have "alloc (elems m src) m = (c, m')" by (simp add: m_copy_def)
  from elems_alloc [OF this] show ?thesis by auto
qed

lemma store_spec:
  "a < length (arrays m) \<Longrightarrow>
   elems (store (Some a) xs m) (Some a) = xs \<and>
   length (arrays (store (Some a) xs m)) = length (arrays m) \<and>
   take a (arrays (store (Some a) xs m)) = take a (arrays m) \<and>
   calls (store (Some a) xs m) = calls m \<and> stub_conds (store (Some a) xs m) = stub_conds m"
  by (simp add: store_def elems_def)

lemma take_take_le: "L \<le> a \<Longrightarrow> take a xs = take a ys \<Longrightarrow> take L xs = take L ys"
  by (metis min.absorb1 take_take)

lemma m_sortConditions_spec:
  assumes "a < length (arrays m)"
  shows "elems (m_sortConditions (Some a) m) (Some a) = sortConditions (elems m (Some a)) \<and>
         length (arrays (m_sortConditions (Some a) m)) = length (arrays m) \<and>
         take a (arrays (m_sortConditions (Some a) m)) = take a (arrays m) \<and>
         calls (m_sortConditions (Some a) m) = calls m \<and>
         stub_conds (m_sortConditions (Some a) m) = stub_conds m"
  unfolding m_sortConditions_def using store_spec [OF assms] by simp

lemma m_set_spec:
  assumes "m_set now c t s r msg m = (c', m')"
    and "case c of None \<Rightarrow> True | Some a \<Rightarrow> L \<le> a \<and> a < length (arrays m)"
    and "L \<le> length (arrays m)"
  shows "elems m' c' = set_cond now (elems m c) t s r msg \<and>
         take L (arrays m') = take L (arrays m) \<and>
         (\<exists>a'. c' = Some a' \<and> L \<le> a' \<and> a' < length (arrays m')) \<and>
         calls m' = calls m \<and> stub_conds m' = stub_conds m"
proof (cases "get (elems m c) t")
  case None
  let ?xs = "elems m c @ [\<lparr>Type = t, Status = s, Reason = r, Message = msg,
                             LastTransitionTime = now\<rparr>]"
  obtain c1 m1 where al: "alloc ?xs m = (c1, m1)" by (cases "alloc ?xs m")
  from elems_alloc [OF al] have 1: "elems m1 c1 = ?xs" "c1 = Some (length (arrays m))"
    "arrays m1 = arrays m @ [?xs]" "calls m1 = calls m" "stub_conds m1 = stub_conds m"
    by blast+
  then have lt: "length (arrays m) < length (arrays m1)" by simp
  from assms(1) None al have res: "c' = c1" "m' = m_sortConditions c1 m1"
    by (auto simp: m_set_def)
  from m_sortConditions_spec [OF lt] 1 res
  have 2: "elems m' c' = sortConditions ?xs" "length (arrays m') = length (arrays m1)"
    "take (length (arrays m)) (arrays m') = take (length (arrays m)) (arrays m1)"
    "calls m' = calls m" "stub_conds m' = stub_conds m"
    by simp_all
  from 2(3) assms(3) have "take L (arrays m') = take L (arrays m1)" by (rule take_take_le [rotated])
  with 1(3) assms(3) have "take L (arrays m') = take L (arrays m)" by simp
  moreover from None have "set_cond now (elems m c) t s r msg = sortConditions ?xs"
    by (simp add: set_cond_def)
  ultimately show ?thesis using 1 2 res lt assms(3) by simp
next
  case (Some i)
  then have "elems m c \<noteq> []" by auto
  then obtain a where c: "c = Some a" by (cases c) auto
  with assms(2) have a: "L \<le> a" "a < length (arrays m)" by simp_all
  let ?cond = "elems m c ! i"
  let ?cond1 = "if Reason ?cond \<noteq> r then ?cond\<lparr>LastTransitionTime := now\<rparr> else ?cond"
  let ?xs = "(elems m c)[i := ?cond1\<lparr>Status := s, Reason := r, Message := msg\<rparr>]"
  let ?m1 = "store c ?xs m"
  from assms(1) Some have res: "c' = c" "m' = m_sortConditions c ?m1"
    by (auto simp: m_set_def Let_def)
  from store_spec [OF a(2), of ?xs] c
  have 1: "elems ?m1 c = ?xs" "length (arrays ?m1) = length (arrays m)"
    "take a (arrays ?m1) = take a (arrays m)" "calls ?m1 = calls m"
    "stub_conds ?m1 = stub_conds m"
    by simp_all
  from a(2) 1(2) have a1: "a < length (arrays ?m1)" by simp
  from m_sortConditions_spec [OF a1] c res 1
  have 2: "elems m' c' = sortConditions ?xs" "length (arrays m') = length (arrays m)"
    "take a (arrays m') = take a (arrays ?m1)" "calls m' = calls m"
    "stub_conds m' = stub_conds m"
    by simp_all
  from 2(3) 1(3) have "take a (arrays m') = take a (arrays m)" by simp
  with a(1) have "take L (arrays m') = take L (arrays m)" by (rule take_take_le)
  moreover from Some have "set_cond now (elems m c) t s r msg = sortConditions ?xs"
    by (simp add: set_cond_def Let_def)
  ultimately show ?thesis using 2 res c a by simp
qed


lemma m_mark_spec:
  assumes g: "m_GetConditions m = (src, m1)"
    and cp: "m_copy src m1 = (c, m2)"
    and st: "m_set now c t s r msg m2 = (c', m3)"
    and fin: "m' = m_SetConditions c' m3"
  shows "calls m' = calls m @ [Ev_GetConditions,
            Ev_SetConditions c' (set_cond now (elems m (stub_conds m)) t s r msg)] \<and>
         (\<exists>a. c' = Some a \<and> length (arrays m) \<le> a \<and> a < length (arrays m')) \<and>
         take (length (arrays m)) (arrays m') = arrays m \<and>
         stub_conds m' = c' \<and>
         elems m' c' = set_cond now (elems m (stub_conds m)) t s r msg"
proof -
  from g have 1: "src = stub_conds m" "m1 = m\<lparr>calls := calls m @ [Ev_GetConditions]\<rparr>"
    by (auto simp: m_GetConditions_def)
  then have a1: "arrays m1 = arrays m" and e1: "elems m1 src = elems m (stub_conds m)"
    by simp_all
  from m_copy_spec [OF cp] a1 e1
  have 2: "elems m2 c = elems m (stub_conds m)"
    "take (length (arrays m)) (arrays m2) = arrays m"
    "case c of None \<Rightarrow> True | Some a \<Rightarrow> length (arrays m) \<le> a \<and> a < length (arrays m2)"
    "calls m2 = calls m1"
    by (auto split: option.splits)
  have len: "length (arrays m) \<le> length (arrays m2)"
    using 2(2) by (metis nat_le_linear take_all_iff)
  from m_set_spec [OF st 2(3) len] 2(1)
  have 3: "elems m3 c' = set_cond now (elems m (stub_conds m)) t s r msg"
    "take (length (arrays m)) (arrays m3) = take (length (arrays m)) (arrays m2)"
    "\<exists>a'. c' = Some a' \<and> length (arrays m) \<le> a' \<and> a' < length (arrays m3)"
    "calls m3 = calls m2"
    by simp_all
  from fin have 4: "arrays m' = arrays m3" "stub_conds m' = c'"
    "calls m' = calls m3 @ [Ev_SetConditions c' (elems m3 c')]" "elems m' c' = elems m3 c'"
    by (simp_all add: m_SetConditions_def)
  from 1 2 3 4 show ?thesis by simp
qed

lemma m_do_call_mark_spec:
  assumes "mark_args k = Some (t, s, r, msg)"
  shows "\<exists>c. calls (m_do_call m (now, k)) = calls m @ [Ev_GetConditions,
            Ev_SetConditions c (set_cond now (elems m (stub_conds m)) t s r msg)] \<and>
         (\<exists>a. c = Some a \<and> length (arrays m) \<le> a \<and> a < length (arrays (m_do_call m (now, k)))) \<and>
         take (length (arrays m)) (arrays (m_do_call m (now, k))) = arrays m \<and>
         stub_conds (m_do_call m (now, k)) = c \<and>
         elems (m_do_call m (now, k)) c = set_cond now (elems m (stub_conds m)) t s r msg"
proof -
  obtain src m1 where g: "m_GetConditions m = (src, m1)" by (cases "m_GetConditions m")
  obtain c m2 where cp: "m_copy src m1 = (c, m2)" by (cases "m_copy src m1")
  obtain c' m3 where st: "m_set now c t s r msg m2 = (c', m3)"
    by (cases "m_set now c t s r msg m2")
  have "m_do_call m (now, k) = m_SetConditions c' m3"
    using assms g cp st
    by (cases k) (auto simp: m_MarkTrue_def m_MarkFalse_def m_MarkUnknown_def)
  from m_mark_spec [OF g cp st this] show ?thesis by blast
qed

text \<open>
  C6: a \<open>Mark*\<close> call makes exactly one \<open>GetConditions\<close> and then exactly one
  \<open>SetConditions\<close> call. Every array that existed before the call, the one behind the
  slice \<open>GetConditions\<close> returned among them, is unchanged after it. The slice handed to
  \<open>SetConditions\<close> points to an array allocated during the call and holds, at that
  moment, the fully updated and sorted set, which is also what the accessor holds
  afterwards.
\<close>

theorem Mark_copy_on_write:
  assumes "mark_args k = Some (t, s, r, msg)"
  shows "\<exists>c a. calls (m_do_call m (now, k)) =
            calls m @ [Ev_GetConditions, Ev_SetConditions c (conds (do_call (stub_of m) (now, k)))] \<and>
         c = Some a \<and> length (arrays m) \<le> a \<and>
         take (length (arrays m)) (arrays (m_do_call m (now, k))) = arrays m \<and>
         sorted_wrt (\<lambda>x y. \<not> lexicographicLess y x) (conds (do_call (stub_of m) (now, k))) \<and>
         stub_conds (m_do_call m (now, k)) = c \<and>
         stub_of (m_do_call m (now, k)) = do_call (stub_of m) (now, k)"
proof -
  have d: "conds (do_call (stub_of m) (now, k)) = set_cond now (elems m (stub_conds m)) t s r msg"
    using assms by (simp add: conds_do_call_mark stub_of_def)
  from m_do_call_mark_spec [OF assms, of m now] obtain c a where
    1: "calls (m_do_call m (now, k)) = calls m @ [Ev_GetConditions,
            Ev_SetConditions c (set_cond now (elems m (stub_conds m)) t s r msg)]"
    "c = Some a" "length (arrays m) \<le> a"
    "take (length (arrays m)) (arrays (m_do_call m (now, k))) = arrays m"
    "stub_conds (m_do_call m (now, k)) = c"
    "elems (m_do_call m (now, k)) c = set_cond now (elems m (stub_conds m)) t s r msg"
    by blast
  have "stub_of (m_do_call m (now, k)) = do_call (stub_of m) (now, k)"
    by (rule stub_eqI) (simp add: d stub_of_def [of "m_do_call m (now, k)"] 1(5,6))
  moreover have "sorted_wrt (\<lambda>x y. \<not> lexicographicLess y x) (conds (do_call (stub_of m) (now, k)))"
    unfolding d by (rule set_cond_sorted)
  ultimately show ?thesis using 1 d by simp
qed

theorem Mark_copy_on_write_witness:
  "mark_args (Call_MarkTrue ''A'') = Some (''A'', True_status, [], []) \<and>
   (\<exists>c a. calls (m_do_call
       \<lparr>arrays = [[\<lparr>Type = ''B'', Status = True_status, Reason = [], Message = [],
                      LastTransitionTime = 1\<rparr>]],
         stub_conds = Some 0, calls = []\<rparr> (2, Call_MarkTrue ''A'')) =
      [Ev_GetConditions,
       Ev_SetConditions c
         [\<lparr>Type = ''A'', Status = True_status, Reason = [], Message = [],
            LastTransitionTime = 2\<rparr>,
          \<lparr>Type = ''B'', Status = True_status, Reason = [], Message = [],
            LastTransitionTime = 1\<rparr>]] \<and>
      c = Some a \<and> 1 \<le> a \<and>
      take 1 (arrays (m_do_call
       \<lparr>arrays = [[\<lparr>Type = ''B'', Status = True_status, Reason = [], Message = [],
                      LastTransitionTime = 1\<rparr>]],
         stub_conds = Some 0, calls = []\<rparr> (2, Call_MarkTrue ''A''))) =
      [[\<lparr>Type = ''B'', Status = True_status, Reason = [], Message = [],
          LastTransitionTime = 1\<rparr>]])"
  (is "mark_args ?k = _ \<and> (\<exists>c a. calls (m_do_call ?m (2, ?k)) = _ \<and> _ \<and> _ \<and> _)")
proof -
  have h: "mark_args ?k = Some (''A'', True_status, [], [])" by simp
  have v: "conds (do_call (stub_of ?m) (2, ?k)) =
      [\<lparr>Type = ''A'', Status = True_status, Reason = [], Message = [],
            LastTransitionTime = 2\<rparr>,
          \<lparr>Type = ''B'', Status = True_status, Reason = [], Message = [],
            LastTransitionTime = 1\<rparr>]"
    by code_simp
  have a: "arrays ?m = [[\<lparr>Type = ''B'', Status = True_status, Reason = [], Message = [],
                      LastTransitionTime = 1\<rparr>]]" "calls ?m = []"
    by simp_all
  from Mark_copy_on_write [OF h, of ?m 2] obtain c a where
    "calls (m_do_call ?m (2, ?k)) =
       calls ?m @ [Ev_GetConditions, Ev_SetConditions c (conds (do_call (stub_of ?m) (2, ?k)))]"
    "c = Some a" "length (arrays ?m) \<le> a"
    "take (length (arrays ?m)) (arrays (m_do_call ?m (2, ?k))) = arrays ?m"
    by blast
  then have "calls (m_do_call ?m (2, ?k)) =
      [Ev_GetConditions,
       Ev_SetConditions c
         [\<lparr>Type = ''A'', Status = True_status, Reason = [], Message = [],
            LastTransitionTime = 2\<rparr>,
          \<lparr>Type = ''B'', Status = True_status, Reason = [], Message = [],
            LastTransitionTime = 1\<rparr>]] \<and>
      c = Some a \<and> 1 \<le> a \<and>
      take 1 (arrays (m_do_call ?m (2, ?k))) =
      [[\<lparr>Type = ''B'', Status = True_status, Reason = [], Message = [],
          LastTransitionTime = 1\<rparr>]]"
    by (simp only: v a list.size One_nat_def append_Nil) simp
  with h show ?thesis by blast
qed

text \<open>
  C10: \<open>IsTrue\<close> makes one \<open>GetConditions\<close> call and no \<open>SetConditions\<close> call; the
  accessor's slice and every array are the same before and after, and a second call
  with the same arguments returns the same boolean.
\<close>

theorem IsTrue_read_only:
  "arrays (snd (m_IsTrue t m)) = arrays m \<and>
   stub_conds (snd (m_IsTrue t m)) = stub_conds m \<and>
   calls (snd (m_IsTrue t m)) = calls m @ [Ev_GetConditions] \<and>
   stub_of (snd (m_IsTrue t m)) = stub_of m \<and>
   fst (m_IsTrue t m) = IsTrue (stub_of m) t \<and>
   fst (m_IsTrue t (snd (m_IsTrue t m))) = fst (m_IsTrue t m)"
proof -
  have s: "snd (m_IsTrue t m) = m\<lparr>calls := calls m @ [Ev_GetConditions]\<rparr>" for m
    by (simp add: m_IsTrue_def m_GetConditions_def)
  have f: "fst (m_IsTrue t m) = IsTrue (stub_of m) t" for m
    by (simp add: m_IsTrue_def m_GetConditions_def IsTrue_def GetConditions_def stub_of_def
        Let_def split: option.splits)
  have so: "stub_of (snd (m_IsTrue t m)) = stub_of m"
    by (simp add: s stub_of_def)
  from f [of "snd (m_IsTrue t m)"] f [of m] so
  have "fst (m_IsTrue t (snd (m_IsTrue t m))) = fst (m_IsTrue t m)" by simp
  with s [of m] f [of m] so show ?thesis by simp
qed

theorem IsTrue_read_only_witness:
  "fst (m_IsTrue ''B''
       \<lparr>arrays = [[\<lparr>Type = ''B'', Status = True_status, Reason = [], Message = [],
                      LastTransitionTime = 1\<rparr>]],
         stub_conds = Some 0, calls = []\<rparr>) \<and>
   snd (m_IsTrue ''B''
       \<lparr>arrays = [[\<lparr>Type = ''B'', Status = True_status, Reason = [], Message = [],
                      LastTransitionTime = 1\<rparr>]],
         stub_conds = Some 0, calls = []\<rparr>) =
       \<lparr>arrays = [[\<lparr>Type = ''B'', Status = True_status, Reason = [], Message = [],
                      LastTransitionTime = 1\<rparr>]],
         stub_conds = Some 0, calls = [Ev_GetConditions]\<rparr>"
  (is "fst (m_IsTrue ''B'' ?m) \<and> _")
proof -
  have "IsTrue (stub_of ?m) ''B''" by code_simp
  with IsTrue_read_only [of "''B''" ?m] have "fst (m_IsTrue ''B'' ?m)" by blast
  moreover from IsTrue_read_only [of "''B''" ?m]
  have "snd (m_IsTrue ''B'' ?m) = \<lparr>arrays = arrays ?m, stub_conds = stub_conds ?m,
          calls = calls ?m @ [Ev_GetConditions]\<rparr>"
    by (cases "snd (m_IsTrue ''B'' ?m)") simp
  ultimately show ?thesis by simp
qed

end
